theory Spec2Isabelle
  imports Main "HOL-Library.Sublist"
begin

section \<open>Data model\<close>

text \<open>
  The package \<^verbatim>\<open>observe-sequence\<close> (file \<^verbatim>\<open>observe_sequence.js\<close>) turns the successive values
  of a reactive sequence function into \<^verbatim>\<open>addedAt\<close>, \<^verbatim>\<open>changed\<close>, \<^verbatim>\<open>removed\<close> and \<^verbatim>\<open>movedTo\<close>
  callbacks.

  Identifiers are JavaScript strings: \<^verbatim>\<open>diffArray\<close> uses them as property names of the plain
  objects \<^verbatim>\<open>posOld\<close> and \<^verbatim>\<open>posNew\<close>. A key is either the \<^verbatim>\<open>_id\<close> of an element (\<open>Ident\<close>) or a
  value returned by \<^verbatim>\<open>Random.id()\<close> (\<open>Gen\<close>, numbered by the order of generation); the
  generator is taken to return values that differ from each other and from every \<^verbatim>\<open>_id\<close>.
  One identifier is not an ordinary property name: assigning a number to
  \<^verbatim>\<open>posNew['__proto__']\<close> creates no property (\<open>ordinary\<close> and \<open>posMap\<close> below).
\<close>

datatype key = Ident string | Gen nat

text \<open>
  An element of an array: \<^verbatim>\<open>null\<close> or \<^verbatim>\<open>undefined\<close> (\<open>Nullish\<close>), a primitive value, which has no
  \<^verbatim>\<open>_id\<close> property (\<open>Prim\<close>), or an object with an optional \<^verbatim>\<open>_id\<close> and the rest of its content
  (\<open>Obj\<close>). The content is opaque: the code never looks into it.
\<close>

datatype item = Nullish | Prim string | Obj "string option" string

text \<open>An element of \<^verbatim>\<open>lastSeqArray\<close> and \<^verbatim>\<open>seqArray\<close>: an object \<^verbatim>\<open>{_id, item}\<close>.\<close>

type_synonym entry = "key \<times> item"

text \<open>
  A document of a Minimongo cursor: its \<^verbatim>\<open>_id\<close> and the rest of its content. The \<^verbatim>\<open>_id\<close> of a
  document is a string other than \<^verbatim>\<open>__proto__\<close>: an array returned by the sequence function can
  hold any element, but nothing the package is given says that a collection stores a
  document under that name.
\<close>

typedef docid = "{s :: string. s \<noteq> ''__proto__''}"
  by (rule exI [of _ "[]"]) simp

setup_lifting type_definition_docid

type_synonym doc = "docid \<times> string"

definition doc_id :: "doc \<Rightarrow> string" where
  "doc_id d = Rep_docid (fst d)"

definition doc_item :: "doc \<Rightarrow> item" where
  "doc_item d = Obj (Some (doc_id d)) (snd d)"

definition doc_entry :: "doc \<Rightarrow> entry" where
  \<comment> \<open>\<^verbatim>\<open>{_id: doc._id, item: doc}\<close>\<close>
  "doc_entry d = (Ident (doc_id d), doc_item d)"

text \<open>
  One invocation of a callback of the consumer, with its arguments in the order of the call.
  The third argument of \<^verbatim>\<open>movedTo\<close> is \<^verbatim>\<open>posOld[id]\<close>, which is \<^verbatim>\<open>undefined\<close> (\<open>None\<close>) for an
  ordinary identifier that \<^verbatim>\<open>posOld\<close> does not hold.
\<close>

datatype event =
    AddedAt key item nat "key option"
  | Changed key item item
  | Removed key item
  | MovedTo key item "nat option" nat "key option"

text \<open>An event of the native feed of a cursor (the callbacks given to \<^verbatim>\<open>cursor.observe\<close>).\<close>

datatype native =
    NAddedAt doc nat "key option"
  | NChanged doc doc
  | NRemoved doc
  | NMovedTo doc nat nat "key option"

datatype error = TypeError | UnsupportedSequenceType

text \<open>
  The value of the sequence function: a falsy value, an array, a Minimongo cursor (a
  reference into the store of cursor objects, compared by identity as \<^verbatim>\<open>lastSeq !== cursor\<close>
  does), or any other value.
\<close>

datatype seqval = Falsy | Arr "item list" | Cur nat | Other

section \<open>The ordered diff\<close>

text \<open>The operations \<^verbatim>\<open>diffArray\<close> receives from the diff routine through its three callbacks.\<close>

datatype op =
    OpRemoved key
  | OpAddedBefore key "key option"
  | OpMovedBefore key "key option"

text \<open>
  Modelled from the spec: \<^verbatim>\<open>LocalCollection._diffQueryOrderedChanges\<close> of the package
  \<^verbatim>\<open>minimongo\<close>, which \<^verbatim>\<open>diffArray\<close> calls and which is not part of \<^verbatim>\<open>observe_sequence.js\<close>.
  The keys that stay in place are a longest common subsequence of the old and the new keys
  (``minimize the number of move operations''); among subsequences of equal length the one
  that keeps the later key of the new sequence is taken, as Scenario 1 of the spec has it
  (\<open>[A,B,C]\<close> to \<open>[B,A,D]\<close> moves \<open>B\<close> and keeps \<open>A\<close>).
\<close>

fun lcs :: "key list \<Rightarrow> key list \<Rightarrow> key list" where
  "lcs [] ys = []"
| "lcs (x # xs) [] = []"
| "lcs (x # xs) (y # ys) =
     (if x = y then x # lcs xs ys
      else (let a = lcs (x # xs) ys; b = lcs xs (y # ys)
            in if length a < length b then b else a))"

definition unmoved :: "key list \<Rightarrow> key list \<Rightarrow> key list" where
  "unmoved oldKeys newKeys = lcs oldKeys newKeys"

text \<open>
  Modelled from the spec: step 1 of the diff, \<open>removed(k)\<close> for every key of \<open>oldKeys\<close> absent
  from \<open>newKeys\<close>.
\<close>

definition removed_ops :: "key list \<Rightarrow> key list \<Rightarrow> op list" where
  "removed_ops oldKeys newKeys = map OpRemoved (filter (\<lambda>k. k \<notin> set newKeys) oldKeys)"

text \<open>
  Modelled from the spec: the before-key of an added or moved key, ``the key immediately
  following it in \<open>newKeys\<close> (or none if it is last)''. The argument is what follows the key
  in \<open>newKeys\<close>.
\<close>

fun before_key :: "key list \<Rightarrow> key option" where
  "before_key [] = None"
| "before_key (k # ks) = Some k"

text \<open>
  Modelled from the spec: step 2 of the diff, the walk over \<open>newKeys\<close> in order. A key that
  stays in place emits nothing; a key absent from \<open>oldKeys\<close> emits \<open>addedBefore\<close>; a key of
  \<open>oldKeys\<close> that does not stay in place emits \<open>movedBefore\<close>.
\<close>

fun place_ops :: "key list \<Rightarrow> key list \<Rightarrow> key list \<Rightarrow> op list" where
  "place_ops oldKeys u [] = []"
| "place_ops oldKeys u (k # ks) =
     (if k \<in> set u then place_ops oldKeys u ks
      else if k \<in> set oldKeys then OpMovedBefore k (before_key ks) # place_ops oldKeys u ks
      else OpAddedBefore k (before_key ks) # place_ops oldKeys u ks)"

definition diff :: "key list \<Rightarrow> key list \<Rightarrow> op list" where
  "diff oldKeys newKeys =
     removed_ops oldKeys newKeys @ place_ops oldKeys (unmoved oldKeys newKeys) newKeys"

subsection \<open>Applying an edit script to a key sequence\<close>




section \<open>\<^verbatim>\<open>diffArray\<close>\<close>

text \<open>
  \<^verbatim>\<open>posOld\<close> and \<^verbatim>\<open>posNew\<close> are plain objects (\<^verbatim>\<open>{}\<close>) used as dictionaries. For every
  identifier but one, \<^verbatim>\<open>pos[id] = i\<close> creates or overwrites the property \<^verbatim>\<open>id\<close>. For the
  identifier \<^verbatim>\<open>__proto__\<close> the assignment goes to the prototype slot of the object, which
  ignores a number: no property is created.
\<close>

definition ordinary :: "key \<Rightarrow> bool" where
  "ordinary k = (k \<noteq> Ident ''__proto__'')"

text \<open>
  The index \<^verbatim>\<open>pos[id]\<close> of an identifier. \<^verbatim>\<open>_.each\<close> assigns in order, so for an identifier that
  occurs twice the later index stays. For \<^verbatim>\<open>__proto__\<close> there is no property: \<^verbatim>\<open>_.has\<close> is
  false, and \<^verbatim>\<open>pos['__proto__']\<close> reads the prototype object, which is the index of no
  element of an array (\<open>None\<close>).
\<close>

definition posMap :: "entry list \<Rightarrow> key \<Rightarrow> nat option" where
  "posMap es k =
     (if ordinary k then map_of (rev (zip (map fst es) [0..<length es])) k else None)"

text \<open>
  The identifiers of \<^verbatim>\<open>posNew\<close> in the order \<^verbatim>\<open>_.each(posNew, ...)\<close> visits them: the
  properties of the object, each once, in the order of first insertion. (A JavaScript
  engine visits property names that are canonical array indices first, in ascending order;
  the model keeps the order of insertion, and no property below is about the order of the
  \<^verbatim>\<open>changed\<close> calls.)
\<close>

definition idOrder :: "entry list \<Rightarrow> key list" where
  "idOrder es = rev (remdups (rev (filter ordinary (map fst es))))"

text \<open>
  \<^verbatim>\<open>arr[i].item\<close>: reading \<^verbatim>\<open>item\<close> from an index the array does not have is a
  \<^verbatim>\<open>TypeError\<close> (\<open>None\<close>).
\<close>

definition itemAt :: "entry list \<Rightarrow> nat option \<Rightarrow> item option" where
  "itemAt es i =
     (case i of None \<Rightarrow> None
      | Some n \<Rightarrow> if n < length es then Some (snd (es ! n)) else None)"

text \<open>The three callbacks \<^verbatim>\<open>diffArray\<close> hands to the diff routine (lines 160 to 168).\<close>

fun diffCallback :: "entry list \<Rightarrow> entry list \<Rightarrow> op \<Rightarrow> event option" where
  "diffCallback lastSeqArray seqArray (OpAddedBefore k before) =
     (case itemAt seqArray (posMap seqArray k) of None \<Rightarrow> None
      | Some it \<Rightarrow> (case posMap seqArray k of None \<Rightarrow> None
                   | Some i \<Rightarrow> Some (AddedAt k it i before)))"
| "diffCallback lastSeqArray seqArray (OpMovedBefore k before) =
     (case itemAt seqArray (posMap seqArray k) of None \<Rightarrow> None
      | Some it \<Rightarrow> (case posMap seqArray k of None \<Rightarrow> None
                   | Some i \<Rightarrow> Some (MovedTo k it (posMap lastSeqArray k) i before)))"
| "diffCallback lastSeqArray seqArray (OpRemoved k) =
     (case itemAt lastSeqArray (posMap lastSeqArray k) of None \<Rightarrow> None
      | Some it \<Rightarrow> Some (Removed k it))"

text \<open>
  The diff routine calls the callbacks one operation after the other; a callback that
  throws ends the run, after the callbacks already made.
\<close>

fun fire :: "(op \<Rightarrow> event option) \<Rightarrow> op list \<Rightarrow> event list \<times> error option" where
  "fire f [] = ([], None)"
| "fire f (p # ps) =
     (case f p of None \<Rightarrow> ([], Some TypeError)
      | Some e \<Rightarrow> (let (es, r) = fire f ps in (e # es, r)))"

text \<open>
  The loop of lines 171 to 174: for every identifier of \<^verbatim>\<open>posNew\<close> that \<^verbatim>\<open>posOld\<close> has,
  \<^verbatim>\<open>callbacks.changed(id, lastSeqArray[posOld[id]].item, seqArray[pos].item)\<close>.
\<close>

definition changedCalls :: "entry list \<Rightarrow> entry list \<Rightarrow> event list" where
  "changedCalls lastSeqArray seqArray =
     concat (map (\<lambda>k. case (posMap lastSeqArray k, posMap seqArray k) of
                        (Some i, Some j) \<Rightarrow> [Changed k (snd (lastSeqArray ! i)) (snd (seqArray ! j))]
                      | _ \<Rightarrow> [])
                 (idOrder seqArray))"

definition diffArray :: "entry list \<Rightarrow> entry list \<Rightarrow> event list \<times> error option" where
  "diffArray lastSeqArray seqArray =
     (let (es, r) = fire (diffCallback lastSeqArray seqArray)
                         (diff (map fst lastSeqArray) (map fst seqArray))
      in case r of
           Some e \<Rightarrow> (es, Some e)
         | None \<Rightarrow> (es @ changedCalls lastSeqArray seqArray, None))"

section \<open>The observation session\<close>

text \<open>
  Modelled from the spec: the live collection, a cursor of the package \<^verbatim>\<open>minimongo\<close>, which is
  not part of \<^verbatim>\<open>observe_sequence.js\<close>. A cursor has the documents it currently selects and a
  read position. \<^verbatim>\<open>rewind\<close> puts the position back to the start; \<^verbatim>\<open>fetch\<close> returns the
  documents from the position on and leaves the position at the end (the comments of the
  source: ``so that we can fetch'', ``so that the user can still fetch'').
\<close>

record cursor =
  docs :: "doc list"
  pos :: nat

definition rewind :: "cursor \<Rightarrow> cursor" where
  "rewind c = c\<lparr>pos := 0\<rparr>"

definition fetch :: "cursor \<Rightarrow> doc list \<times> cursor" where
  "fetch c = (drop (pos c) (docs c), c\<lparr>pos := max (pos c) (length (docs c))\<rparr>)"

text \<open>
  The variables of one call of \<^verbatim>\<open>observe\<close> (\<open>lastSeq\<close>, \<open>lastSeqArray\<close>, \<open>activeObserveHandle\<close>),
  whether its computation has been stopped, and the objects it shares with its
  environment: the cursor objects, the observe handles made so far (the cursor each listens
  to and whether it is still live; a handle is its index in the list) and the state of the
  generator of random identifiers.

  Modelled from the spec: a handle returned by \<^verbatim>\<open>cursor.observe\<close> stays live until its \<^verbatim>\<open>stop\<close>
  is called, and a stopped computation is never run again.
\<close>

record state =
  lastSeq :: seqval
  lastSeqArray :: "entry list option"
  activeObserveHandle :: "nat option"
  stopped :: bool
  cursors :: "nat \<Rightarrow> cursor"
  handles :: "(nat \<times> bool) list"
  rng :: nat

definition init :: "(nat \<Rightarrow> cursor) \<Rightarrow> state" where
  \<comment> \<open>\<^verbatim>\<open>lastSeq = null\<close>, \<^verbatim>\<open>activeObserveHandle = null\<close>, \<^verbatim>\<open>lastSeqArray = []\<close>\<close>
  "init cs = \<lparr>lastSeq = Falsy, lastSeqArray = Some [], activeObserveHandle = None,
              stopped = False, cursors = cs, handles = [], rng = 0\<rparr>"

text \<open>
  \<^verbatim>\<open>_.map(seq, function (doc, i) { return { _id: doc._id || Random.id(), item: doc }; })\<close>.
  Reading \<^verbatim>\<open>_id\<close> of \<^verbatim>\<open>null\<close> or \<^verbatim>\<open>undefined\<close> throws; \<^verbatim>\<open>||\<close> takes the random identifier when
  \<^verbatim>\<open>doc._id\<close> is falsy, that is \<^verbatim>\<open>undefined\<close> or the empty string.
\<close>

fun idField :: "item \<Rightarrow> error + string option" where
  "idField Nullish = Inl TypeError"
| "idField (Prim v) = Inr None"
| "idField (Obj i v) = Inr i"

definition truthy :: "string option \<Rightarrow> bool" where
  "truthy i = (case i of None \<Rightarrow> False | Some s \<Rightarrow> s \<noteq> [])"

definition pickId :: "string option \<Rightarrow> nat \<Rightarrow> key \<times> nat" where
  \<comment> \<open>\<^verbatim>\<open>doc._id || Random.id()\<close>, with the state of the generator\<close>
  "pickId i n =
     (case i of
        Some s \<Rightarrow> if s \<noteq> [] then (Ident s, n) else (Gen n, Suc n)
      | None \<Rightarrow> (Gen n, Suc n))"

fun materialize :: "item list \<Rightarrow> nat \<Rightarrow> (error + entry list) \<times> nat" where
  "materialize [] n = (Inr [], n)"
| "materialize (d # ds) n =
     (case idField d of
        Inl e \<Rightarrow> (Inl e, n)
      | Inr i \<Rightarrow>
          (let (k, n1) = pickId i n
           in case materialize ds n1 of
                (Inl e, n2) \<Rightarrow> (Inl e, n2)
              | (Inr es, n2) \<Rightarrow> (Inr ((k, d) # es), n2)))"

text \<open>
  The non-reactive traversal of a cursor (lines 53 to 57 and 78 to 82): \<^verbatim>\<open>rewind\<close>, \<^verbatim>\<open>fetch\<close>
  mapped to entries, \<^verbatim>\<open>rewind\<close>.
\<close>

definition fetchAll :: "state \<Rightarrow> nat \<Rightarrow> entry list \<times> state" where
  "fetchAll s c =
     (let c1 = rewind (cursors s c);
          (ds, c2) = fetch c1;
          c3 = rewind c2
      in (map doc_entry ds, s\<lparr>cursors := (cursors s)(c := c3)\<rparr>))"

text \<open>Lines 51 to 59: when the last sequence was a cursor, refresh \<open>lastSeqArray\<close> from it.\<close>

definition prefetch :: "state \<Rightarrow> state" where
  "prefetch s =
     (case lastSeq s of
        Cur c \<Rightarrow> (let (es, s1) = fetchAll s c in s1\<lparr>lastSeqArray := Some es\<rparr>)
      | _ \<Rightarrow> s)"

text \<open>
  The callbacks given to \<^verbatim>\<open>cursor.observe\<close> (lines 98 to 110), with the value of the variable
  \<open>initial\<close> at the time of the call.
\<close>

fun forward :: "bool \<Rightarrow> native \<Rightarrow> event list" where
  "forward initial (NAddedAt d i before) =
     (if \<not> initial then [AddedAt (Ident (doc_id d)) (doc_item d) i before] else [])"
| "forward initial (NChanged n old) = [Changed (Ident (doc_id n)) (doc_item n) (doc_item old)]"
| "forward initial (NRemoved old) = [Removed (Ident (doc_id old)) (doc_item old)]"
| "forward initial (NMovedTo d i j before) =
     [MovedTo (Ident (doc_id d)) (doc_item d) (Some i) j before]"

text \<open>
  Modelled from the spec: the initial notification of the native feed. \<^verbatim>\<open>cursor.observe\<close>
  announces every document the cursor holds, in order, before it returns.
\<close>

fun initialBatch :: "nat \<Rightarrow> doc list \<Rightarrow> native list" where
  "initialBatch i [] = []"
| "initialBatch i (d # ds) = NAddedAt d i None # initialBatch (Suc i) ds"

definition stopHandle :: "state \<Rightarrow> nat \<Rightarrow> state" where
  "stopHandle s h =
     (if h < length (handles s)
      then s\<lparr>handles := (handles s)[h := (fst (handles s ! h), False)]\<rparr> else s)"

text \<open>
  \<^verbatim>\<open>cursor.observe({...})\<close> at line 97: a new live handle on the cursor; the initial
  notification runs through the callbacks while \<open>initial\<close> is still \<^verbatim>\<open>true\<close>.
\<close>

definition observeCursor :: "state \<Rightarrow> nat \<Rightarrow> nat \<times> event list \<times> state" where
  "observeCursor s c =
     (length (handles s),
      concat (map (forward True) (initialBatch 0 (docs (cursors s c)))),
      s\<lparr>handles := handles s @ [(c, True)]\<rparr>)"

text \<open>
  One run of the function given to \<^verbatim>\<open>Deps.autorun\<close> (lines 44 to 121) with the value \<open>seq\<close> of
  the sequence function: the new state, the callbacks made in order, and the error thrown
  if any. An \<open>undefined\<close> \<open>lastSeqArray\<close> is iterated by \<^verbatim>\<open>_.each\<close> as an empty one.
\<close>

definition run :: "state \<Rightarrow> seqval \<Rightarrow> state \<times> event list \<times> error option" where
  "run s0 seq =
     (let s = prefetch s0;
          old = (case lastSeqArray s of None \<Rightarrow> [] | Some a \<Rightarrow> a)
      in case seq of
           Falsy \<Rightarrow>
             (let (evs, r) = diffArray old []
              in case r of
                   Some e \<Rightarrow> (s, evs, Some e)
                 | None \<Rightarrow> (s\<lparr>lastSeq := seq, lastSeqArray := Some []\<rparr>, evs, None))
         | Arr ds \<Rightarrow>
             (case materialize ds (rng s) of
                (Inl e, n) \<Rightarrow> (s\<lparr>rng := n\<rparr>, [], Some e)
              | (Inr seqArray, n) \<Rightarrow>
                  (let (evs, r) = diffArray old seqArray;
                       s1 = s\<lparr>rng := n\<rparr>
                   in case r of
                        Some e \<Rightarrow> (s1, evs, Some e)
                      | None \<Rightarrow> (s1\<lparr>lastSeq := seq, lastSeqArray := Some seqArray\<rparr>, evs, None)))
         | Cur c \<Rightarrow>
             (if lastSeq s \<noteq> Cur c then
                (let (seqArray, s1) = fetchAll s c;
                     (evs, r) = diffArray old seqArray
                 in case r of
                      Some e \<Rightarrow> (s1, evs, Some e)
                    | None \<Rightarrow>
                        (let s2 = (case activeObserveHandle s1 of
                                     Some h \<Rightarrow> stopHandle s1 h
                                   | None \<Rightarrow> s1);
                             (h, evs2, s3) = observeCursor s2 c
                         in (s3\<lparr>activeObserveHandle := Some h, lastSeq := seq,
                                lastSeqArray := Some seqArray\<rparr>, evs @ evs2, None)))
              else (s\<lparr>lastSeq := seq, lastSeqArray := None\<rparr>, [], None))
         | Other \<Rightarrow> (s, [], Some UnsupportedSequenceType))"

text \<open>
  A reactive trigger: the computation runs again unless it has been stopped. \<^verbatim>\<open>observe\<close>
  itself makes the first run.
\<close>

definition trigger :: "state \<Rightarrow> seqval \<Rightarrow> state \<times> event list \<times> error option" where
  "trigger s seq = (if stopped s then (s, [], None) else run s seq)"

definition observe :: "(nat \<Rightarrow> cursor) \<Rightarrow> seqval \<Rightarrow> state \<times> event list \<times> error option" where
  "observe cs seq = run (init cs) seq"

text \<open>The \<^verbatim>\<open>stop\<close> of the object \<^verbatim>\<open>observe\<close> returns (lines 123 to 127): \<^verbatim>\<open>computation.stop()\<close>.\<close>

definition stop :: "state \<Rightarrow> state" where
  "stop s = s\<lparr>stopped := True\<rparr>"

text \<open>
  A native trigger: the feed of cursor \<open>c\<close> delivers an event to every live handle on it, and
  the callbacks of lines 98 to 110 forward it, \<open>initial\<close> being \<^verbatim>\<open>false\<close> by then.
\<close>

definition deliver :: "state \<Rightarrow> nat \<Rightarrow> native \<Rightarrow> event list" where
  "deliver s c ev =
     concat (map (\<lambda>(c', live). if live \<and> c' = c then forward False ev else []) (handles s))"

text \<open>The handles that are live.\<close>

definition liveHandles :: "state \<Rightarrow> nat list" where
  "liveHandles s = filter (\<lambda>h. snd (handles s ! h)) [0..<length (handles s)]"

section \<open>Vocabulary of the properties\<close>

text \<open>Which callback an event is, and for which key; the same for the operations of a script.\<close>

fun isAddedAt :: "key \<Rightarrow> event \<Rightarrow> bool" where
  "isAddedAt k (AddedAt k' it i b) = (k' = k)"
| "isAddedAt k e = False"

fun isChanged :: "key \<Rightarrow> event \<Rightarrow> bool" where
  "isChanged k (Changed k' a b) = (k' = k)"
| "isChanged k e = False"

fun isRemoved :: "key \<Rightarrow> event \<Rightarrow> bool" where
  "isRemoved k (Removed k' it) = (k' = k)"
| "isRemoved k e = False"

fun isMovedTo :: "key \<Rightarrow> event \<Rightarrow> bool" where
  "isMovedTo k (MovedTo k' it i j b) = (k' = k)"
| "isMovedTo k e = False"

fun addedAtCall :: "event \<Rightarrow> bool" where
  "addedAtCall (AddedAt k it i b) = True"
| "addedAtCall e = False"

fun adds :: "key \<Rightarrow> op \<Rightarrow> bool" where
  "adds k (OpAddedBefore k' b) = (k' = k)"
| "adds k p = False"

fun removes :: "key \<Rightarrow> op \<Rightarrow> bool" where
  "removes k (OpRemoved k') = (k' = k)"
| "removes k p = False"

fun moves :: "key \<Rightarrow> op \<Rightarrow> bool" where
  "moves k (OpMovedBefore k' b) = (k' = k)"
| "moves k p = False"

fun opKey :: "op \<Rightarrow> key" where
  "opKey (OpRemoved k) = k"
| "opKey (OpAddedBefore k b) = k"
| "opKey (OpMovedBefore k b) = k"

text \<open>
  An operation whose key the callbacks of \<^verbatim>\<open>diffArray\<close> can look up: a removed key in the old
  snapshot, an added or moved key in the new one.
\<close>

definition opOk :: "entry list \<Rightarrow> entry list \<Rightarrow> op \<Rightarrow> bool" where
  "opOk A B p =
     (ordinary (opKey p) \<and>
      (case p of OpRemoved k \<Rightarrow> k \<in> fst ` set A | _ \<Rightarrow> opKey p \<in> fst ` set B))"



text \<open>The \<^verbatim>\<open>_id\<close> property of an element, \<open>None\<close> when it has none.\<close>

fun idOf :: "item \<Rightarrow> string option" where
  "idOf (Obj i v) = i"
| "idOf d = None"

text \<open>
  The states a session can be in: it starts with \<open>init\<close>, reruns on a reactive trigger, can be
  stopped, and the environment can change what the cursors hold and where they stand.
\<close>

inductive reachable :: "state \<Rightarrow> bool" where
  start: "reachable (init cs)"
| rerun: "reachable s \<Longrightarrow> reachable (fst (trigger s v))"
| halt: "reachable s \<Longrightarrow> reachable (stop s)"
| world: "reachable s \<Longrightarrow> reachable (s\<lparr>cursors := cs\<rparr>)"

text \<open>
  Two invariants of the states a session reaches: a live handle is the one
  \<open>activeObserveHandle\<close> holds, and while \<open>lastSeq\<close> is a cursor the active handle is live on
  that cursor.
\<close>

definition oneLive :: "state \<Rightarrow> bool" where
  "oneLive s = (\<forall>h \<in> set (liveHandles s). activeObserveHandle s = Some h)"

definition attached :: "state \<Rightarrow> bool" where
  "attached s =
     (case lastSeq s of
        Cur c \<Rightarrow> (case activeObserveHandle s of
                    Some h \<Rightarrow> h < length (handles s) \<and> handles s ! h = (c, True)
                  | None \<Rightarrow> False)
      | _ \<Rightarrow> True)"

text \<open>
  A store for the examples: every cursor holds the documents \<open>x\<close> and \<open>y\<close>, and its owner has
  already read the first one.
\<close>

lift_definition idX :: docid is "''x''"
  by simp

lift_definition idY :: docid is "''y''"
  by simp

definition twoDocs :: "nat \<Rightarrow> cursor" where
  "twoDocs c = \<lparr>docs = [(idX, ''X''), (idY, ''Y'')], pos = 1\<rparr>"

section \<open>Properties\<close>

subsection \<open>Unsupported sequence values\<close>

text \<open>
  C8. When the sequence function returns a value that is neither falsy, nor an array, nor a
  Minimongo cursor, the run throws the error of line 115 and makes no callback at all. The
  session keeps \<open>lastSeq\<close>; the only effect is the refresh of lines 51 to 59.
\<close>

theorem unsupported_sequence_type:
  "run s Other = (prefetch s, [], Some UnsupportedSequenceType)"
  by (simp add: run_def Let_def)

subsection \<open>When the edit script rebuilds the new key sequence\<close>

lemma lcs_subseq_old: "subseq (lcs xs ys) xs"
  by (induction xs ys rule: lcs.induct) (auto simp: Let_def)


lemma subseq_set_subset: "subseq xs ys \<Longrightarrow> set xs \<subseteq> set ys"
  by (auto elim: list_emb_set)














subsection \<open>The keys the callbacks cover\<close>

lemma ordinary_doc: "ordinary (fst (doc_entry d))"
  using Rep_docid [of "fst d"] by (simp add: ordinary_def doc_entry_def doc_id_def)

lemma ordinary_Gen: "ordinary (Gen n)"
  by (simp add: ordinary_def)

lemma posMap_None: "posMap es k = None \<longleftrightarrow> k \<notin> fst ` set es \<or> \<not> ordinary k"
proof -
  have "map fst (zip (map fst es) [0..<length es]) = map fst es"
    by (simp add: map_fst_zip)
  then have "fst ` set (zip (map fst es) [0..<length es]) = fst ` set es"
    by (metis set_map)
  then show ?thesis by (simp add: posMap_def map_of_eq_None_iff)
qed

lemma posMap_Some: "posMap es k = Some i \<Longrightarrow> i < length es \<and> fst (es ! i) = k"
proof -
  assume "posMap es k = Some i"
  then have "(k, i) \<in> set (zip (map fst es) [0..<length es])"
    by (auto simp: posMap_def dest: map_of_SomeD split: if_splits)
  then show ?thesis by (auto simp: in_set_zip)
qed

lemma posMap_defined:
  "ordinary k \<Longrightarrow> k \<in> fst ` set es \<Longrightarrow> \<exists>i. posMap es k = Some i \<and> i < length es"
  using posMap_None posMap_Some by (cases "posMap es k") auto

lemma diffCallback_defined:
  assumes "opOk A B p"
  shows "\<exists>e. diffCallback A B p = Some e \<and> isAddedAt k e = adds k p \<and>
           isRemoved k e = removes k p \<and> isMovedTo k e = moves k p \<and> \<not> isChanged k e"
proof (cases p)
  case (OpRemoved x)
  then obtain i where "posMap A x = Some i" "i < length A"
    using assms posMap_defined by (auto simp: opOk_def)
  with OpRemoved show ?thesis by (simp add: itemAt_def)
next
  case (OpAddedBefore x b)
  then obtain i where "posMap B x = Some i" "i < length B"
    using assms posMap_defined by (auto simp: opOk_def)
  with OpAddedBefore show ?thesis by (simp add: itemAt_def)
next
  case (OpMovedBefore x b)
  then obtain i where "posMap B x = Some i" "i < length B"
    using assms posMap_defined by (auto simp: opOk_def)
  with OpMovedBefore show ?thesis by (simp add: itemAt_def)
qed

lemma fire_diffCallback:
  assumes "\<forall>p \<in> set ps. opOk A B p"
  shows "snd (fire (diffCallback A B) ps) = None \<and>
         length (filter (isAddedAt k) (fst (fire (diffCallback A B) ps))) = length (filter (adds k) ps) \<and>
         length (filter (isRemoved k) (fst (fire (diffCallback A B) ps))) = length (filter (removes k) ps) \<and>
         length (filter (isMovedTo k) (fst (fire (diffCallback A B) ps))) = length (filter (moves k) ps) \<and>
         filter (isChanged k) (fst (fire (diffCallback A B) ps)) = []"
  using assms
proof (induction ps)
  case Nil
  then show ?case by simp
next
  case (Cons p ps)
  then obtain e where e: "diffCallback A B p = Some e" "isAddedAt k e = adds k p"
      "isRemoved k e = removes k p" "isMovedTo k e = moves k p" "\<not> isChanged k e"
    using diffCallback_defined [of A B p k] by auto
  from Cons have IH: "snd (fire (diffCallback A B) ps) = None \<and>
         length (filter (isAddedAt k) (fst (fire (diffCallback A B) ps))) = length (filter (adds k) ps) \<and>
         length (filter (isRemoved k) (fst (fire (diffCallback A B) ps))) = length (filter (removes k) ps) \<and>
         length (filter (isMovedTo k) (fst (fire (diffCallback A B) ps))) = length (filter (moves k) ps) \<and>
         filter (isChanged k) (fst (fire (diffCallback A B) ps)) = []"
    by simp
  obtain es r where f: "fire (diffCallback A B) ps = (es, r)" by (cases "fire (diffCallback A B) ps")
  with IH e show ?case by simp
qed

lemma count_eq_distinct:
  "distinct xs \<Longrightarrow> length (filter (\<lambda>x. x = k \<and> P x) xs) = (if k \<in> set xs \<and> P k then 1 else 0)"
  by (induction xs) auto

lemma removed_ops_counts:
  assumes "distinct old"
  shows "length (filter (removes k) (removed_ops old new)) = (if k \<in> set old \<and> k \<notin> set new then 1 else 0)"
    and "filter (adds k) (removed_ops old new) = []"
    and "filter (moves k) (removed_ops old new) = []"
proof -
  have "filter (removes k) (map OpRemoved xs) = map OpRemoved (filter (\<lambda>x. x = k) xs)" for xs
    by (induction xs) auto
  then have "length (filter (removes k) (removed_ops old new))
      = length (filter (\<lambda>x. x = k \<and> x \<notin> set new) old)"
    by (simp add: removed_ops_def conj_commute)
  then show "length (filter (removes k) (removed_ops old new)) = (if k \<in> set old \<and> k \<notin> set new then 1 else 0)"
    using assms count_eq_distinct [of old k "\<lambda>x. x \<notin> set new"] by simp
  show "filter (adds k) (removed_ops old new) = []"
    by (simp add: removed_ops_def filter_empty_conv)
  show "filter (moves k) (removed_ops old new) = []"
    by (simp add: removed_ops_def filter_empty_conv)
qed

lemma place_ops_counts:
  assumes "distinct ks"
  shows "length (filter (adds k) (place_ops old u ks)) = (if k \<in> set ks \<and> k \<notin> set u \<and> k \<notin> set old then 1 else 0)"
    and "length (filter (moves k) (place_ops old u ks)) = (if k \<in> set ks \<and> k \<notin> set u \<and> k \<in> set old then 1 else 0)"
    and "filter (removes k) (place_ops old u ks) = []"
  using assms by (induction ks) auto

lemma place_ops_keys: "p \<in> set (place_ops old u ks) \<Longrightarrow> (\<forall>k. \<not> removes k p) \<and> opKey p \<in> set ks"
  by (induction ks) (auto split: if_splits)

lemma diff_ops_ok:
  assumes ord: "\<forall>k \<in> fst ` set A \<union> fst ` set B. ordinary k"
    and "p \<in> set (diff (map fst A) (map fst B))"
  shows "opOk A B p"
proof -
  from assms(2) consider "p \<in> set (removed_ops (map fst A) (map fst B))"
    | "p \<in> set (place_ops (map fst A) (unmoved (map fst A) (map fst B)) (map fst B))"
    by (auto simp: diff_def)
  then show ?thesis
  proof cases
    case 1
    then show ?thesis using ord by (force simp: removed_ops_def opOk_def)
  next
    case 2
    then have "(\<forall>k. \<not> removes k p) \<and> opKey p \<in> set (map fst B)" by (rule place_ops_keys)
    then show ?thesis using ord by (cases p) (auto simp: opOk_def)
  qed
qed

lemma idOrder_distinct:
  "distinct (map fst es) \<Longrightarrow> \<forall>k \<in> fst ` set es. ordinary k \<Longrightarrow> idOrder es = map fst es"
  by (simp add: idOrder_def distinct_remdups_id filter_id_conv)

lemma changedCalls_counts:
  assumes "distinct (map fst B)" and ordB: "\<forall>k \<in> fst ` set B. ordinary k"
  shows "length (filter (isChanged k) (changedCalls A B)) = (if k \<in> fst ` set A \<and> k \<in> fst ` set B then 1 else 0)"
    and "filter (isAddedAt k) (changedCalls A B) = []"
    and "filter (isRemoved k) (changedCalls A B) = []"
    and "filter (isMovedTo k) (changedCalls A B) = []"
proof -
  let ?f = "\<lambda>k. case (posMap A k, posMap B k) of
                        (Some i, Some j) \<Rightarrow> [Changed k (snd (A ! i)) (snd (B ! j))]
                      | _ \<Rightarrow> []"
  have other: "filter (isAddedAt k) (?f x) = [] \<and> filter (isRemoved k) (?f x) = [] \<and> filter (isMovedTo k) (?f x) = []" for x
    by (auto split: option.splits)
  have one: "x \<in> set ks \<Longrightarrow> x \<in> fst ` set B \<Longrightarrow>
      length (filter (isChanged k) (?f x)) = (if x = k \<and> x \<in> fst ` set A then 1 else 0)" for x ks
    using posMap_None [of A x] posMap_None [of B x] ordB by (auto split: option.splits)
  have gen: "set ks \<subseteq> fst ` set B \<Longrightarrow> length (filter (isChanged k) (concat (map ?f ks)))
      = length (filter (\<lambda>x. x = k \<and> x \<in> fst ` set A) ks)" for ks
  proof (induction ks)
    case Nil
    then show ?case by simp
  next
    case (Cons x ks)
    then have "x \<in> fst ` set B" by simp
    with Cons one [of x "x # ks"] show ?case by auto
  qed
  have "length (filter (isChanged k) (changedCalls A B))
      = length (filter (\<lambda>x. x = k \<and> x \<in> fst ` set A) (map fst B))"
    using gen [of "map fst B"] assms by (simp add: changedCalls_def idOrder_distinct)
  then show "length (filter (isChanged k) (changedCalls A B)) = (if k \<in> fst ` set A \<and> k \<in> fst ` set B then 1 else 0)"
    using assms count_eq_distinct [of "map fst B" k "\<lambda>x. x \<in> fst ` set A"] by auto
  show "filter (isAddedAt k) (changedCalls A B) = []"
    using other by (simp add: changedCalls_def filter_concat comp_def)
  show "filter (isRemoved k) (changedCalls A B) = []"
    using other by (simp add: changedCalls_def filter_concat comp_def)
  show "filter (isMovedTo k) (changedCalls A B) = []"
    using other by (simp add: changedCalls_def filter_concat comp_def)
qed

text \<open>
  For snapshots \<open>A\<close> (old) and \<open>B\<close> (new) with unique keys that are all ordinary property
  names, one call of \<^verbatim>\<open>diffArray\<close> throws nothing and calls \<^verbatim>\<open>addedAt\<close> exactly once for every
  key of \<open>B\<close> not in \<open>A\<close>, \<^verbatim>\<open>removed\<close> exactly once for every key of \<open>A\<close> not in \<open>B\<close>, \<^verbatim>\<open>changed\<close>
  exactly once for every key in both and \<^verbatim>\<open>movedTo\<close> at most once for every key in both; for
  any other key none of the four is called.
\<close>

lemma diffArray_coverage_ordinary:
  assumes "distinct (map fst A)" and "distinct (map fst B)"
    and ord: "\<forall>k \<in> fst ` set A \<union> fst ` set B. ordinary k"
  shows "snd (diffArray A B) = None \<and>
    (\<forall>k. length (filter (isAddedAt k) (fst (diffArray A B)))
            = (if k \<in> fst ` set B \<and> k \<notin> fst ` set A then 1 else 0)) \<and>
    (\<forall>k. length (filter (isRemoved k) (fst (diffArray A B)))
            = (if k \<in> fst ` set A \<and> k \<notin> fst ` set B then 1 else 0)) \<and>
    (\<forall>k. length (filter (isChanged k) (fst (diffArray A B)))
            = (if k \<in> fst ` set A \<and> k \<in> fst ` set B then 1 else 0)) \<and>
    (\<forall>k. length (filter (isMovedTo k) (fst (diffArray A B)))
            \<le> (if k \<in> fst ` set A \<and> k \<in> fst ` set B then 1 else 0))"
proof -
  let ?old = "map fst A" and ?new = "map fst B"
  let ?ops = "diff ?old ?new"
  let ?u = "unmoved ?old ?new"
  obtain es r where f: "fire (diffCallback A B) ?ops = (es, r)"
    by (cases "fire (diffCallback A B) ?ops")
  have ok: "\<forall>p \<in> set ?ops. opOk A B p" using diff_ops_ok [OF ord] by blast
  have ordB: "\<forall>k \<in> fst ` set B. ordinary k" using ord by blast
  have r: "r = None" using fire_diffCallback [OF ok] f by simp
  have evs: "diffArray A B = (es @ changedCalls A B, None)"
    using f r by (simp add: diffArray_def)
  have uo: "set ?u \<subseteq> set ?old"
    unfolding unmoved_def by (rule subseq_set_subset [OF lcs_subseq_old])
  have added: "length (filter (isAddedAt k) es)
                 = (if k \<in> fst ` set B \<and> k \<notin> fst ` set A then 1 else 0)" for k
  proof -
    have "length (filter (isAddedAt k) es) = length (filter (adds k) ?ops)"
      using fire_diffCallback [OF ok, of k] f by simp
    also have "\<dots> = length (filter (adds k) (place_ops ?old ?u ?new))"
      using removed_ops_counts(2) [of ?old k ?new] assms(1) by (simp add: diff_def)
    also have "\<dots> = (if k \<in> set ?new \<and> k \<notin> set ?u \<and> k \<notin> set ?old then 1 else 0)"
      using assms(2) by (rule place_ops_counts(1))
    finally show ?thesis using uo by auto
  qed
  have removed: "length (filter (isRemoved k) es)
                 = (if k \<in> fst ` set A \<and> k \<notin> fst ` set B then 1 else 0)" for k
  proof -
    have "length (filter (isRemoved k) es) = length (filter (removes k) ?ops)"
      using fire_diffCallback [OF ok, of k] f by simp
    also have "\<dots> = length (filter (removes k) (removed_ops ?old ?new))"
      using place_ops_counts(3) [of ?new k ?old ?u] assms(2) by (simp add: diff_def)
    also have "\<dots> = (if k \<in> set ?old \<and> k \<notin> set ?new then 1 else 0)"
      using assms(1) by (rule removed_ops_counts(1))
    finally show ?thesis by simp
  qed
  have moved: "length (filter (isMovedTo k) es)
                 \<le> (if k \<in> fst ` set A \<and> k \<in> fst ` set B then 1 else 0)" for k
  proof -
    have "length (filter (isMovedTo k) es) = length (filter (moves k) ?ops)"
      using fire_diffCallback [OF ok, of k] f by simp
    also have "\<dots> = length (filter (moves k) (place_ops ?old ?u ?new))"
      using removed_ops_counts(3) [of ?old k ?new] assms(1) by (simp add: diff_def)
    also have "\<dots> = (if k \<in> set ?new \<and> k \<notin> set ?u \<and> k \<in> set ?old then 1 else 0)"
      using assms(2) by (rule place_ops_counts(2))
    finally show ?thesis by simp
  qed
  have nochanged: "filter (isChanged k) es = []" for k
    using fire_diffCallback [OF ok, of k] f by simp
  show ?thesis
    using added removed moved nochanged changedCalls_counts [OF assms(2) ordB, of _ A]
    by (simp add: evs)
qed

text \<open>
  C5. The claim covers every snapshot with unique keys; \<^verbatim>\<open>diffArray\<close> misses the key
  \<^verbatim>\<open>__proto__\<close>. \<^verbatim>\<open>posNew\<close> and \<^verbatim>\<open>posOld\<close> hold no property for it, so for an element with that
  \<^verbatim>\<open>_id\<close> in both snapshots the loop of lines 171 to 174 makes no \<^verbatim>\<open>changed\<close> call, and for such
  an element in the new snapshot only, the callback of line 161 throws while it looks the
  item up and \<^verbatim>\<open>addedAt\<close> is never called.
\<close>

theorem proto_key_not_covered:
  "diffArray [(Ident ''__proto__'', Obj (Some ''__proto__'') ''old'')]
             [(Ident ''__proto__'', Obj (Some ''__proto__'') ''new'')] = ([], None) \<and>
   diffArray [] [(Ident ''__proto__'', Obj (Some ''__proto__'') ''new'')] = ([], Some TypeError)"
  by code_simp

subsection \<open>The arguments of \<^verbatim>\<open>changed\<close>\<close>

text \<open>
  For snapshots with unique keys, the call for a key in both is \<^verbatim>\<open>changed\<close> with the key, the
  item of the old snapshot and the item of the new snapshot, in this order.
\<close>

lemma posMap_entry:
  assumes "distinct (map fst es)" and "(k, v) \<in> set es" and "ordinary k"
  shows "\<exists>i. posMap es k = Some i \<and> i < length es \<and> es ! i = (k, v)"
proof -
  have "k \<in> fst ` set es" using assms(2) by force
  then obtain i where i: "posMap es k = Some i" "i < length es"
    using posMap_defined assms(3) by blast
  then have fi: "fst (es ! i) = k" using posMap_Some by blast
  obtain j where j: "j < length es" "es ! j = (k, v)"
    using assms(2) by (auto simp: in_set_conv_nth)
  have "map fst es ! i = map fst es ! j" using i j fi by simp
  then have "i = j"
    using nth_eq_iff_index_eq [OF assms(1), of i j] i(2) j(1) by simp
  with i j show ?thesis by blast
qed

lemma changedCalls_arguments:
  assumes "distinct (map fst A)" and "distinct (map fst B)"
    and "(k, a) \<in> set A" and "(k, b) \<in> set B" and "ordinary k"
  shows "Changed k a b \<in> set (changedCalls A B)"
proof -
  obtain i where i: "posMap A k = Some i" "A ! i = (k, a)"
    using posMap_entry [OF assms(1,3,5)] by blast
  obtain j where j: "posMap B k = Some j" "B ! j = (k, b)"
    using posMap_entry [OF assms(2,4,5)] by blast
  have "k \<in> set (idOrder B)" using assms(4,5) by (force simp: idOrder_def)
  then show ?thesis using i j by (force simp: changedCalls_def)
qed

text \<open>
  C1. For a key present in the old and in the new snapshot, \<^verbatim>\<open>diffArray\<close> calls \<^verbatim>\<open>changed\<close> with
  the item of the old snapshot as second argument and the item of the new snapshot as
  third: the reverse of \<^verbatim>\<open>changed(id, newItem, oldItem)\<close>, which the header comment of
  \<^verbatim>\<open>observe\<close> documents and which the callback forwarding the native feed (line 103)
  follows. Here the snapshot \<open>[x: old]\<close> is diffed against \<open>[x: new]\<close>.
\<close>

theorem changed_arguments_swapped:
  "diffArray [(Ident ''x'', Obj (Some ''x'') ''old'')] [(Ident ''x'', Obj (Some ''x'') ''new'')]
     = ([Changed (Ident ''x'') (Obj (Some ''x'') ''old'') (Obj (Some ''x'') ''new'')], None)"
  by code_simp

subsection \<open>The keys left in place are as many as possible\<close>

lemma lcs_longest:
  "subseq zs xs \<Longrightarrow> subseq zs ys \<Longrightarrow> length zs \<le> length (lcs xs ys)"
proof (induction xs ys arbitrary: zs rule: lcs.induct)
  case (1 ys)
  then show ?case by simp
next
  case (2 x xs)
  then show ?case by simp
next
  case (3 x xs y ys)
  show ?case
  proof (cases zs)
    case Nil
    then show ?thesis by simp
  next
    case (Cons z zs')
    show ?thesis
    proof (cases "x = y")
      case True
      show ?thesis
      proof (cases "z = x")
        case z: True
        have "subseq zs' xs" "subseq zs' ys" using "3.prems" Cons z True by simp_all
        then have "length zs' \<le> length (lcs xs ys)" using "3.IH"(1) [OF True] by simp
        then show ?thesis using Cons True by simp
      next
        case z: False
        have "subseq zs xs" "subseq zs ys" using "3.prems" Cons z True by simp_all
        then have "length zs \<le> length (lcs xs ys)" using "3.IH"(1) [OF True] by simp
        then show ?thesis using True by simp
      qed
    next
      case False
      show ?thesis
      proof (cases "z = x")
        case True
        then have "subseq zs ys" using "3.prems"(2) Cons False by simp
        then have "length zs \<le> length (lcs (x # xs) ys)"
          using "3.IH"(2) [OF False] "3.prems"(1) by simp
        then show ?thesis using False by (simp add: Let_def)
      next
        case z: False
        then have "subseq zs xs" using "3.prems"(1) Cons by simp
        then have "length zs \<le> length (lcs xs (y # ys))"
          using "3.IH"(3) [OF False] "3.prems"(2) by simp
        then show ?thesis using False by (simp add: Let_def)
      qed
    qed
  qed
qed

subsection \<open>The keys of an array\<close>

text \<open>
  C9 does not hold of every item whose identity field is present. An element whose \<^verbatim>\<open>_id\<close> is
  the empty string has its identity field present, and gets a generated key all the same: \<^verbatim>\<open>doc._id || Random.id()\<close> takes the right operand for every
  falsy \<^verbatim>\<open>_id\<close>.
\<close>

theorem empty_id_gets_generated_key:
  "fst (materialize [Obj (Some '''') ''a''] 0) = Inr [(Gen 0, Obj (Some '''') ''a'')]"
  by code_simp

lemma materialize_null:
  "Nullish \<in> set ds \<Longrightarrow> fst (materialize ds n) = Inl TypeError"
proof (induction ds arbitrary: n)
  case Nil
  then show ?case by simp
next
  case (Cons d ds)
  show ?case
  proof (cases "d = Nullish")
    case True
    then show ?thesis by simp
  next
    case False
    then have "Nullish \<in> set ds" using Cons.prems by auto
    then have IH: "fst (materialize ds m) = Inl TypeError" for m by (rule Cons.IH)
    obtain i where i: "idField d = Inr i" using False by (cases d) auto
    obtain k n1 where pk: "pickId i n = (k, n1)" by (cases "pickId i n")
    obtain n2 where "materialize ds n1 = (Inl TypeError, n2)"
      using IH [of n1] by (cases "materialize ds n1") auto
    with i pk show ?thesis by simp
  qed
qed

text \<open>
  C9. Materializing an array without \<^verbatim>\<open>null\<close> or \<^verbatim>\<open>undefined\<close> elements keeps every element
  in its place; an element whose \<^verbatim>\<open>_id\<close> is a non-empty string receives that \<^verbatim>\<open>_id\<close> as its
  key, and every other element (no \<^verbatim>\<open>_id\<close>, or a falsy \<^verbatim>\<open>_id\<close>: the empty string) receives a
  freshly generated key, the next one of the generator, so that the generated keys of one
  materialization differ from each other and from every key generated before.
\<close>

theorem materialize_keys:
  assumes "Nullish \<notin> set ds"
  shows "\<exists>es. materialize ds n = (Inr es, n + length (filter (\<lambda>d. \<not> truthy (idOf d)) ds)) \<and>
           length es = length ds \<and>
           (\<forall>j < length ds. snd (es ! j) = ds ! j \<and>
              (\<forall>s. idOf (ds ! j) = Some s \<and> s \<noteq> [] \<longrightarrow> fst (es ! j) = Ident s) \<and>
              (\<not> truthy (idOf (ds ! j)) \<longrightarrow>
                 fst (es ! j) = Gen (n + length (filter (\<lambda>d. \<not> truthy (idOf d)) (take j ds)))))"
  using assms
proof (induction ds arbitrary: n)
  case Nil
  then show ?case by simp
next
  case (Cons d ds)
  let ?fresh = "\<lambda>d. \<not> truthy (idOf d)"
  have dn: "d \<noteq> Nullish" and rest: "Nullish \<notin> set ds" using Cons.prems by auto
  have idf: "idField d = Inr (idOf d)" using dn by (cases d) auto
  obtain k n1 where pk: "pickId (idOf d) n = (k, n1)" by (cases "pickId (idOf d) n")
  have n1: "n1 = n + (if ?fresh d then 1 else 0)"
    and k1: "\<forall>s. idOf d = Some s \<and> s \<noteq> [] \<longrightarrow> k = Ident s"
    and k2: "?fresh d \<longrightarrow> k = Gen n"
    using pk by (auto simp: pickId_def truthy_def split: option.splits if_splits)
  obtain es where es: "materialize ds n1 = (Inr es, n1 + length (filter ?fresh ds))"
    and len: "length es = length ds"
    and keys: "\<forall>j < length ds. snd (es ! j) = ds ! j \<and>
              (\<forall>s. idOf (ds ! j) = Some s \<and> s \<noteq> [] \<longrightarrow> fst (es ! j) = Ident s) \<and>
              (?fresh (ds ! j) \<longrightarrow> fst (es ! j) = Gen (n1 + length (filter ?fresh (take j ds))))"
    using Cons.IH [OF rest, of n1] by blast
  have m: "materialize (d # ds) n = (Inr ((k, d) # es), n + length (filter ?fresh (d # ds)))"
    using idf pk es n1 by simp
  have "snd (((k, d) # es) ! j) = (d # ds) ! j \<and>
        (\<forall>s. idOf ((d # ds) ! j) = Some s \<and> s \<noteq> [] \<longrightarrow> fst (((k, d) # es) ! j) = Ident s) \<and>
        (?fresh ((d # ds) ! j) \<longrightarrow>
           fst (((k, d) # es) ! j) = Gen (n + length (filter ?fresh (take j (d # ds)))))"
    if "j < length (d # ds)" for j
  proof (cases j)
    case 0
    then show ?thesis using k1 k2 by simp
  next
    case (Suc i)
    then have "i < length ds" using that by simp
    with keys Suc n1 show ?thesis by simp
  qed
  with m len show ?case by simp
qed

theorem materialize_keys_witness:
  "Nullish \<notin> set [Obj (Some '''') ''a'', Prim ''b'', Obj (Some ''k'') ''c'', Obj None ''d''] \<and>
   (\<exists>es. materialize [Obj (Some '''') ''a'', Prim ''b'', Obj (Some ''k'') ''c'', Obj None ''d''] 0
            = (Inr es, 3) \<and>
          map fst es = [Gen 0, Gen 1, Ident ''k'', Gen 2])"
  using materialize_keys [of "[Obj (Some '''') ''a'', Prim ''b'', Obj (Some ''k'') ''c'', Obj None ''d'']" 0]
  by (simp add: pickId_def)

subsection \<open>Traversing a cursor\<close>

lemma fetchAll_eq:
  "fetchAll s c = (map doc_entry (docs (cursors s c)),
                   s\<lparr>cursors := (cursors s)(c := (cursors s c)\<lparr>pos := 0\<rparr>)\<rparr>)"
  by (simp add: fetchAll_def rewind_def fetch_def Let_def)

lemma prefetch_fields:
  "lastSeq (prefetch s) = lastSeq s"
  "activeObserveHandle (prefetch s) = activeObserveHandle s"
  "handles (prefetch s) = handles s"
  "stopped (prefetch s) = stopped s"
  "rng (prefetch s) = rng s"
  "docs (cursors (prefetch s) c) = docs (cursors s c)"
  by (auto simp: prefetch_def fetchAll_eq split: seqval.splits)

lemma fetchAll_fields:
  "lastSeq (snd (fetchAll s c)) = lastSeq s"
  "activeObserveHandle (snd (fetchAll s c)) = activeObserveHandle s"
  "handles (snd (fetchAll s c)) = handles s"
  by (simp_all add: fetchAll_eq)

text \<open>
  C7 does not hold of a cursor its owner has begun to read. The owner of the cursor has read
  one of its two documents; after the session has attached to the cursor the read position
  is at the start, not where the owner left it.
\<close>

theorem traversal_moves_read_position:
  "pos (cursors (fst (observe twoDocs (Cur 0))) 0) \<noteq> pos (twoDocs 0)"
  by code_simp

text \<open>
  C7. Every non-reactive traversal of a cursor during materialization (of the previous cursor
  in \<open>prefetch\<close>, of a newly attached cursor in \<open>run\<close>; both are \<open>fetchAll\<close>) rewinds the cursor
  before and after the fetch: it reads all the documents of the cursor whatever the read
  position was, and leaves the read position at the start, whatever it was before.
  Nothing else of the state changes.
\<close>

theorem traversal_rewinds:
  "fetchAll s c = (map doc_entry (docs (cursors s c)),
                   s\<lparr>cursors := (cursors s)(c := (cursors s c)\<lparr>pos := 0\<rparr>)\<rparr>)"
  by (rule fetchAll_eq)

subsection \<open>Attaching to a cursor\<close>

lemma concat_map_Nil: "concat (map (\<lambda>x. []) xs) = []"
  by (induction xs) auto

lemma diffArray_two_new:
  "ordinary (fst e1) \<Longrightarrow> ordinary (fst e2) \<Longrightarrow>
   snd (diffArray [] [e1, e2]) = None \<and>
   length (filter addedAtCall (fst (diffArray [] [e1, e2]))) = 2"
  by (cases e1; cases e2)
     (simp add: diffArray_def diff_def removed_ops_def unmoved_def posMap_def itemAt_def
        changedCalls_def concat_map_Nil)

lemma initial_batch_suppressed: "concat (map (forward True) (initialBatch i ds)) = []"
  by (induction ds arbitrary: i) auto

text \<open>
  C6. A session whose previous snapshot is empty attaches to a cursor that holds two
  documents: the run throws nothing and calls \<^verbatim>\<open>addedAt\<close> exactly twice. The native feed
  announces the same two documents in its initial notification; forwarded while \<open>initial\<close>
  is \<^verbatim>\<open>true\<close> they make no callback, where the same notification forwarded later would
  make two more.
\<close>

theorem attach_adds_once:
  assumes "lastSeqArray (prefetch s) = Some []" and "lastSeq s \<noteq> Cur c"
    and "docs (cursors s c) = [d1, d2]"
  shows "snd (snd (run s (Cur c))) = None \<and>
         length (filter addedAtCall (fst (snd (run s (Cur c))))) = 2 \<and>
         initialBatch 0 (docs (cursors s c)) = [NAddedAt d1 0 None, NAddedAt d2 1 None] \<and>
         concat (map (forward True) (initialBatch 0 (docs (cursors s c)))) = [] \<and>
         length (filter addedAtCall (concat (map (forward False) (initialBatch 0 (docs (cursors s c)))))) = 2"
proof -
  obtain evs r where d: "diffArray [] [doc_entry d1, doc_entry d2] = (evs, r)"
    by (cases "diffArray [] [doc_entry d1, doc_entry d2]")
  then have r: "r = None" and n: "length (filter addedAtCall evs) = 2"
    using diffArray_two_new [OF ordinary_doc ordinary_doc, of d1 d2] by simp_all
  have "run s (Cur c) = (fst (run s (Cur c)), evs, None)"
    using assms d r
    by (simp add: run_def Let_def prefetch_fields fetchAll_eq observeCursor_def
        initial_batch_suppressed split: option.splits del: concat_eq_Nil_conv)
  then have "snd (run s (Cur c)) = (evs, None)" by (metis snd_conv)
  with n assms(3) show ?thesis by simp
qed

theorem attach_adds_once_witness:
  "lastSeqArray (prefetch (init twoDocs)) = Some [] \<and> lastSeq (init twoDocs) \<noteq> Cur 0 \<and>
   docs (cursors (init twoDocs) 0) = [(idX, ''X''), (idY, ''Y'')] \<and>
   snd (snd (run (init twoDocs) (Cur 0))) = None \<and>
   length (filter addedAtCall (fst (snd (run (init twoDocs) (Cur 0))))) = 2"
proof -
  have 1: "lastSeqArray (prefetch (init twoDocs)) = Some []"
    and 2: "lastSeq (init twoDocs) \<noteq> Cur 0"
    and 3: "docs (cursors (init twoDocs) 0) = [(idX, ''X''), (idY, ''Y'')]"
    by (simp_all add: prefetch_def init_def twoDocs_def)
  from attach_adds_once [OF 1 2 3] 1 2 3 show ?thesis by simp
qed

subsection \<open>The life of a subscription\<close>

lemma doc_id_examples: "doc_id (idX, v) = ''x''" "doc_id (idY, v) = ''y''"
  by (simp_all add: doc_id_def idX.rep_eq idY.rep_eq)

lemma attach_twoDocs:
  "lastSeq (fst (observe twoDocs (Cur 0))) = Cur 0"
  "activeObserveHandle (fst (observe twoDocs (Cur 0))) = Some 0"
  "handles (fst (observe twoDocs (Cur 0))) = [(0, True)]"
  "snd (observe twoDocs (Cur 0)) = ([AddedAt (Ident ''x'') (Obj (Some ''x'') ''X'') 0 (Some (Ident ''y'')),
       AddedAt (Ident ''y'') (Obj (Some ''y'') ''Y'') 1 None], None)"
  by code_simp+

lemma reachable_observe: "reachable (fst (observe cs v))"
proof -
  have "fst (observe cs v) = fst (trigger (init cs) v)"
    by (simp add: observe_def trigger_def init_def)
  then show ?thesis using reachable.rerun [OF reachable.start, of cs v] by simp
qed

lemma live_iff: "h \<in> set (liveHandles s) \<longleftrightarrow> h < length (handles s) \<and> snd (handles s ! h)"
  by (auto simp: liveHandles_def)

text \<open>The state between the stop of the old handle and the new \<^verbatim>\<open>observe\<close> has no live handle.\<close>

lemma stopped_before_observe:
  assumes "oneLive s"
  shows "liveHandles (case activeObserveHandle s of Some h \<Rightarrow> stopHandle s h | None \<Rightarrow> s) = []"
proof -
  let ?s2 = "case activeObserveHandle s of Some h \<Rightarrow> stopHandle s h | None \<Rightarrow> s"
  have "\<not> (i < length (handles ?s2) \<and> snd (handles ?s2 ! i))" for i
  proof (cases "activeObserveHandle s")
    case None
    then show ?thesis using assms by (auto simp: oneLive_def live_iff)
  next
    case (Some h)
    show ?thesis
    proof (cases "i = h")
      case True
      then show ?thesis using Some by (auto simp: stopHandle_def)
    next
      case False
      then have "\<not> (i < length (handles s) \<and> snd (handles s ! i))"
        using assms Some by (auto simp: oneLive_def live_iff)
      then show ?thesis using Some False by (auto simp: stopHandle_def)
    qed
  qed
  then show ?thesis by (auto simp: liveHandles_def filter_empty_conv)
qed

lemma run_attach:
  assumes "lastSeq s \<noteq> Cur c" and "snd (snd (run s (Cur c))) = None"
  shows "\<exists>s2. liveHandles s2 = liveHandles (case activeObserveHandle s of Some h \<Rightarrow> stopHandle s h | None \<Rightarrow> s) \<and>
           length (handles s2) = length (handles s) \<and>
           handles (fst (run s (Cur c))) = handles s2 @ [(c, True)] \<and>
           activeObserveHandle (fst (run s (Cur c))) = Some (length (handles s2)) \<and>
           lastSeq (fst (run s (Cur c))) = Cur c"
proof -
  let ?p = "prefetch s"
  let ?old = "case lastSeqArray ?p of None \<Rightarrow> [] | Some a \<Rightarrow> a"
  let ?s1 = "snd (fetchAll ?p c)"
  let ?s2 = "case activeObserveHandle ?s1 of Some h \<Rightarrow> stopHandle ?s1 h | None \<Rightarrow> ?s1"
  obtain evs r where d: "diffArray ?old (fst (fetchAll ?p c)) = (evs, r)"
    by (cases "diffArray ?old (fst (fetchAll ?p c))")
  have r: "r = None"
  proof (cases r)
    case None
    then show ?thesis .
  next
    case (Some e)
    then have "snd (snd (run s (Cur c))) = Some e"
      using assms(1) d by (simp add: run_def Let_def prefetch_fields split_beta)
    with assms(2) show ?thesis by simp
  qed
  have run: "fst (run s (Cur c)) = (snd (snd (observeCursor ?s2 c)))
      \<lparr>activeObserveHandle := Some (fst (observeCursor ?s2 c)), lastSeq := Cur c,
        lastSeqArray := Some (fst (fetchAll ?p c))\<rparr>"
    using assms(1) d r by (simp add: run_def Let_def prefetch_fields split_beta)
  have h2: "handles ?s2 = handles (case activeObserveHandle s of Some h \<Rightarrow> stopHandle s h | None \<Rightarrow> s)"
    by (auto simp: fetchAll_fields prefetch_fields stopHandle_def split: option.splits)
  then have "liveHandles ?s2 = liveHandles (case activeObserveHandle s of Some h \<Rightarrow> stopHandle s h | None \<Rightarrow> s)"
    by (simp add: liveHandles_def)
  moreover have "length (handles ?s2) = length (handles s)"
    by (auto simp: fetchAll_fields prefetch_fields stopHandle_def split: option.splits)
  moreover have "handles (fst (run s (Cur c))) = handles ?s2 @ [(c, True)]"
    "activeObserveHandle (fst (run s (Cur c))) = Some (length (handles ?s2))"
    "lastSeq (fst (run s (Cur c))) = Cur c"
    by (simp_all add: run observeCursor_def)
  ultimately show ?thesis by blast
qed

lemma run_no_attach:
  assumes "\<forall>c. v = Cur c \<longrightarrow> lastSeq s = Cur c \<or> snd (snd (run s v)) \<noteq> None"
  shows "handles (fst (run s v)) = handles s \<and>
         activeObserveHandle (fst (run s v)) = activeObserveHandle s \<and>
         (lastSeq (fst (run s v)) = lastSeq s \<or> (\<forall>c. lastSeq (fst (run s v)) \<noteq> Cur c))"
proof (cases v)
  case Falsy
  then show ?thesis
    by (simp add: run_def Let_def split_beta prefetch_fields split: option.splits)
next
  case (Arr ds)
  then show ?thesis
    by (simp add: run_def Let_def split_beta prefetch_fields split: option.splits sum.splits prod.splits)
next
  case (Cur c)
  show ?thesis
  proof (cases "lastSeq s = Cur c")
    case True
    with Cur show ?thesis by (simp add: run_def Let_def prefetch_fields)
  next
    case False
    then have "snd (snd (run s (Cur c))) \<noteq> None" using assms Cur by simp
    then show ?thesis using False Cur
      by (simp add: run_def Let_def split_beta prefetch_fields fetchAll_fields
          split: option.splits)
  qed
next
  case Other
  then show ?thesis by (simp add: run_def Let_def prefetch_fields)
qed

lemma oneLive_run:
  assumes "oneLive s"
  shows "oneLive (fst (run s v))"
proof (cases "\<forall>c. v = Cur c \<longrightarrow> lastSeq s = Cur c \<or> snd (snd (run s v)) \<noteq> None")
  case True
  then have "handles (fst (run s v)) = handles s"
    "activeObserveHandle (fst (run s v)) = activeObserveHandle s"
    using run_no_attach by blast+
  with assms show ?thesis by (simp add: oneLive_def liveHandles_def)
next
  case False
  then obtain c where v: "v = Cur c" and fresh: "lastSeq s \<noteq> Cur c"
    and ok: "snd (snd (run s (Cur c))) = None" by auto
  from run_attach [OF fresh ok] stopped_before_observe [OF assms]
  obtain s2 where s2: "liveHandles s2 = []"
    and h: "handles (fst (run s (Cur c))) = handles s2 @ [(c, True)]"
    and a: "activeObserveHandle (fst (run s (Cur c))) = Some (length (handles s2))"
    by auto
  have "i = length (handles s2)" if "i \<in> set (liveHandles (fst (run s (Cur c))))" for i
  proof (rule ccontr)
    assume "i \<noteq> length (handles s2)"
    then have "i < length (handles s2) \<and> snd (handles s2 ! i)"
      using that h by (auto simp: live_iff nth_append)
    then have "i \<in> set (liveHandles s2)" by (simp add: live_iff)
    with s2 show False by simp
  qed
  with a v show ?thesis by (simp add: oneLive_def)
qed

lemma attached_run:
  assumes "attached s"
  shows "attached (fst (run s v))"
proof (cases "\<forall>c. v = Cur c \<longrightarrow> lastSeq s = Cur c \<or> snd (snd (run s v)) \<noteq> None")
  case True
  from run_no_attach [OF True] assms show ?thesis
    by (auto simp: attached_def split: seqval.splits option.splits)
next
  case False
  then obtain c where v: "v = Cur c" and fresh: "lastSeq s \<noteq> Cur c"
    and ok: "snd (snd (run s (Cur c))) = None" by auto
  from run_attach [OF fresh ok] obtain s2
    where "liveHandles s2 = liveHandles (case activeObserveHandle s of
                                           Some h \<Rightarrow> stopHandle s h | None \<Rightarrow> s)"
      and "length (handles s2) = length (handles s)"
      and "handles (fst (run s (Cur c))) = handles s2 @ [(c, True)]"
      and "activeObserveHandle (fst (run s (Cur c))) = Some (length (handles s2))"
      and "lastSeq (fst (run s (Cur c))) = Cur c"
    by blast
  with v show ?thesis by (simp add: attached_def nth_append)
qed

lemma reachable_invariant: "reachable s \<Longrightarrow> oneLive s \<and> attached s"
proof (induction rule: reachable.induct)
  case (start cs)
  show ?case by (simp add: oneLive_def attached_def liveHandles_def init_def)
next
  case (rerun s v)
  then show ?case by (simp add: trigger_def oneLive_run attached_run)
next
  case (halt s)
  then show ?case
    by (auto simp: oneLive_def attached_def liveHandles_def stop_def
        split: seqval.splits option.splits)
next
  case (world s cs)
  then show ?case
    by (auto simp: oneLive_def attached_def liveHandles_def split: seqval.splits option.splits)
qed

lemma all_equal_short: "distinct xs \<Longrightarrow> \<forall>x \<in> set xs. x = a \<Longrightarrow> length xs \<le> 1"
  by (cases xs; cases "tl xs") auto

lemma at_most_one_live: "reachable s \<Longrightarrow> length (liveHandles s) \<le> 1"
proof -
  assume "reachable s"
  then have one: "oneLive s" using reachable_invariant by blast
  have d: "distinct (liveHandles s)" by (simp add: liveHandles_def)
  show ?thesis
  proof (cases "activeObserveHandle s")
    case None
    then have "liveHandles s = []" using one by (cases "liveHandles s") (auto simp: oneLive_def)
    then show ?thesis by simp
  next
    case (Some h)
    then have "\<forall>x \<in> set (liveHandles s). x = h" using one by (auto simp: oneLive_def)
    with d show ?thesis by (rule all_equal_short)
  qed
qed

lemma concat_single:
  "h < length xs \<Longrightarrow> (\<forall>i < length xs. i \<noteq> h \<longrightarrow> f (xs ! i) = []) \<Longrightarrow>
   concat (map f xs) = f (xs ! h)"
proof (induction xs arbitrary: h)
  case Nil
  then show ?case by simp
next
  case (Cons x xs)
  show ?case
  proof (cases h)
    case 0
    have "f y = []" if "y \<in> set xs" for y
    proof -
      from that obtain i where "i < length xs" "xs ! i = y" by (auto simp: in_set_conv_nth)
      then show ?thesis using Cons.prems(2) 0 by (auto dest: spec [of _ "Suc i"])
    qed
    then have "concat (map f xs) = []" by simp
    with 0 show ?thesis by simp
  next
    case (Suc j)
    have "f x = []" using Cons.prems(2) Suc by (auto dest: spec [of _ 0])
    moreover have "concat (map f xs) = f (xs ! j)"
    proof (rule Cons.IH)
      show "j < length xs" using Cons.prems(1) Suc by simp
      show "\<forall>i<length xs. i \<noteq> j \<longrightarrow> f (xs ! i) = []"
        using Cons.prems(2) Suc by (auto dest: spec [of _ "Suc i" for i])
    qed
    ultimately show ?thesis using Suc by simp
  qed
qed

lemma deliver_attached:
  assumes "oneLive s" and "attached s" and "lastSeq s = Cur c"
  shows "deliver s c ev = forward False ev"
proof -
  obtain h where a: "activeObserveHandle s = Some h" and h: "h < length (handles s)"
    and hc: "handles s ! h = (c, True)"
    using assms(2,3) by (auto simp: attached_def split: option.splits)
  let ?f = "\<lambda>(c', live). if live \<and> c' = c then forward False ev else []"
  have "?f (handles s ! i) = []" if "i < length (handles s)" "i \<noteq> h" for i
  proof -
    have "\<not> snd (handles s ! i)" using assms(1) a that by (auto simp: oneLive_def live_iff)
    then show ?thesis by (cases "handles s ! i") auto
  qed
  then have "concat (map ?f (handles s)) = ?f (handles s ! h)"
    using h by (intro concat_single) auto
  then show ?thesis using hc by (simp add: deliver_def)
qed

text \<open>
  C3. A session attaches to a cursor, and the sequence function then returns an empty array,
  or a falsy value: the handle on the cursor is still live after that run, and a native
  event of the cursor still reaches the callbacks. The branches of lines 61 to 71 never
  touch \<open>activeObserveHandle\<close>; only the branch of a fresh cursor stops it (lines 89 to 91).
  What does hold is \<open>at_most_one_live\<close> and \<open>stopped_before_observe\<close>: never two live
  handles, and the old one is stopped before the new \<^verbatim>\<open>observe\<close>.
\<close>

theorem list_run_keeps_subscription:
  "liveHandles (fst (trigger (fst (observe twoDocs (Cur 0))) (Arr []))) = [0] \<and>
   deliver (fst (trigger (fst (observe twoDocs (Cur 0))) (Arr []))) 0 (NRemoved (idX, ''X''))
     = [Removed (Ident ''x'') (Obj (Some ''x'') ''X'')] \<and>
   liveHandles (fst (trigger (fst (observe twoDocs (Cur 0))) Falsy)) = [0]"
  by code_simp

lemma stop_blocks_rerun: "trigger (stop s) v = (stop s, [], None)"
  by (simp add: trigger_def stop_def)

lemma stop_twice: "stop (stop s) = stop s"
  by (simp add: stop_def)

lemma stop_keeps_handles:
  "handles (stop s) = handles s" "liveHandles (stop s) = liveHandles s"
  "deliver (stop s) c ev = deliver s c ev"
  by (simp_all add: stop_def liveHandles_def deliver_def)

text \<open>
  C2. A session attaches to a cursor and is stopped: \<^verbatim>\<open>stop\<close> calls \<^verbatim>\<open>computation.stop()\<close> and
  nothing else, so the handle on the cursor is still live, and a native change of the
  document \<open>x\<close> after the stop still calls \<^verbatim>\<open>changed\<close>. A reactive trigger after the stop
  makes no callback (\<open>stop_blocks_rerun\<close>) and a second stop changes nothing (\<open>stop_twice\<close>).
\<close>

theorem stop_leaves_subscription:
  "liveHandles (stop (fst (observe twoDocs (Cur 0)))) = [0] \<and>
   deliver (stop (fst (observe twoDocs (Cur 0)))) 0 (NChanged (idX, ''X2'') (idX, ''X''))
     = [Changed (Ident ''x'') (Obj (Some ''x'') ''X2'') (Obj (Some ''x'') ''X'')]"
  by code_simp

text \<open>
  C10. In a state a session can reach, a run whose sequence value is the cursor of the
  previous run makes no callback and throws nothing; it leaves \<open>activeObserveHandle\<close> and
  the handles as they are, so the one live handle is still the one made when the cursor was
  attached, and every native event of the cursor is forwarded to the callbacks as before.
\<close>

theorem same_cursor_rerun:
  assumes "reachable s" and "lastSeq s = Cur c"
  shows "snd (run s (Cur c)) = ([], None) \<and>
         activeObserveHandle (fst (run s (Cur c))) = activeObserveHandle s \<and>
         handles (fst (run s (Cur c))) = handles s \<and>
         (\<exists>h. liveHandles (fst (run s (Cur c))) = [h] \<and> activeObserveHandle s = Some h) \<and>
         (\<forall>ev. deliver (fst (run s (Cur c))) c ev = forward False ev)"
proof -
  have inv: "oneLive s" "attached s" using assms(1) reachable_invariant by blast+
  have r: "run s (Cur c) = ((prefetch s)\<lparr>lastSeq := Cur c, lastSeqArray := None\<rparr>, [], None)"
    using assms(2) by (simp add: run_def Let_def prefetch_fields)
  have hs: "handles (fst (run s (Cur c))) = handles s"
    and ac: "activeObserveHandle (fst (run s (Cur c))) = activeObserveHandle s"
    by (simp_all add: r prefetch_fields)
  have del: "deliver (fst (run s (Cur c))) c ev = forward False ev" for ev
  proof -
    have "deliver (fst (run s (Cur c))) c ev = deliver s c ev"
      by (simp add: deliver_def hs)
    then show ?thesis using deliver_attached [OF inv assms(2)] by simp
  qed
  obtain h where a: "activeObserveHandle s = Some h" and h: "h < length (handles s)"
    and hc: "handles s ! h = (c, True)"
    using inv(2) assms(2) by (auto simp: attached_def split: option.splits)
  have "h \<in> set (liveHandles s)" using h hc by (simp add: live_iff)
  moreover have "length (liveHandles s) \<le> 1" using assms(1) by (rule at_most_one_live)
  ultimately have "liveHandles s = [h]"
    by (cases "liveHandles s"; cases "tl (liveHandles s)") auto
  then have "liveHandles (fst (run s (Cur c))) = [h]" by (simp add: liveHandles_def hs)
  with r hs ac del a show ?thesis by simp
qed

theorem same_cursor_rerun_witness:
  "reachable (fst (observe twoDocs (Cur 0))) \<and>
   lastSeq (fst (observe twoDocs (Cur 0))) = Cur 0 \<and>
   snd (run (fst (observe twoDocs (Cur 0))) (Cur 0)) = ([], None) \<and>
   liveHandles (fst (run (fst (observe twoDocs (Cur 0))) (Cur 0))) = [0] \<and>
   deliver (fst (run (fst (observe twoDocs (Cur 0))) (Cur 0))) 0 (NRemoved (idX, ''X''))
     = [Removed (Ident ''x'') (Obj (Some ''x'') ''X'')]"
proof -
  let ?s = "fst (observe twoDocs (Cur 0))"
  have r: "reachable ?s" by (rule reachable_observe)
  have l: "lastSeq ?s = Cur 0" by (rule attach_twoDocs(1))
  note t = same_cursor_rerun [OF r l]
  from t have 1: "snd (run ?s (Cur 0)) = ([], None)" by blast
  from t obtain h where "liveHandles (fst (run ?s (Cur 0))) = [h]"
    and "activeObserveHandle ?s = Some h" by blast
  then have 2: "liveHandles (fst (run ?s (Cur 0))) = [0]"
    using attach_twoDocs(2) by simp
  from t have "deliver (fst (run ?s (Cur 0))) 0 (NRemoved (idX, ''X''))
      = forward False (NRemoved (idX, ''X''))" by blast
  then have 3: "deliver (fst (run ?s (Cur 0))) 0 (NRemoved (idX, ''X''))
      = [Removed (Ident ''x'') (Obj (Some ''x'') ''X'')]"
    by (simp add: doc_item_def doc_id_examples)
  from r l 1 2 3 show ?thesis by blast
qed

subsection \<open>The scenarios of the spec\<close>

text \<open>
  Scenarios 1 to 3 of the spec, run on the model. In scenario 1 the second and third
  arguments of \<^verbatim>\<open>changed\<close> are the old and the new item, in the order of line 173.
\<close>

lemma scenario_1:
  "diffArray [(Ident ''A'', Prim ''a''), (Ident ''B'', Prim ''b''), (Ident ''C'', Prim ''c'')]
             [(Ident ''B'', Prim ''b2''), (Ident ''A'', Prim ''a2''), (Ident ''D'', Prim ''d'')]
   = ([Removed (Ident ''C'') (Prim ''c''),
       MovedTo (Ident ''B'') (Prim ''b2'') (Some 1) 0 (Some (Ident ''A'')),
       AddedAt (Ident ''D'') (Prim ''d'') 2 None,
       Changed (Ident ''B'') (Prim ''b'') (Prim ''b2''),
       Changed (Ident ''A'') (Prim ''a'') (Prim ''a2'')], None)"
  by code_simp

lemma scenario_2:
  "diffArray [] [(Ident ''X'', Prim ''x'')] = ([AddedAt (Ident ''X'') (Prim ''x'') 0 None], None)"
  by code_simp

lemma scenario_3:
  "snd (trigger (fst (observe twoDocs (Arr [Obj (Some ''x'') ''old'', Obj (Some ''y'') ''old''])))
          (Cur 0))
   = ([Changed (Ident ''x'') (Obj (Some ''x'') ''old'') (Obj (Some ''x'') ''X''),
       Changed (Ident ''y'') (Obj (Some ''y'') ''old'') (Obj (Some ''y'') ''Y'')], None)"
  by code_simp

end
